theory Spec2Isabelle
  imports Main "HOL-Library.Word"
begin

section \<open>Integers of the Go program\<close>

text \<open>
  Go's \<open>int\<close> and \<open>int64\<close> are 64-bit two's complement integers. They are modelled as
  \<open>int\<close>, and the wrap-around is written out with \<open>int64\<close> at the one place of
  \<open>airac.go\<close> where a product can leave the 64-bit range (the multiplication in
  \<open>Effective\<close>). Go's \<open>/\<close> and \<open>%\<close> truncate towards zero.
\<close>

definition int64 :: "int \<Rightarrow> int" where
  "int64 x = (x + 9223372036854775808) mod 18446744073709551616 - 9223372036854775808"

definition go_div :: "int \<Rightarrow> int \<Rightarrow> int" where
  "go_div a b = sgn a * sgn b * (\<bar>a\<bar> div \<bar>b\<bar>)"

definition go_mod :: "int \<Rightarrow> int \<Rightarrow> int" where
  "go_mod a b = a - b * go_div a b"

section \<open>The part of Go's time package that airac.go calls\<close>

text \<open>
  A \<open>time.Time\<close> without monotonic clock reading is an instant: a count of seconds since
  January 1 of year 1, 00:00:00 UTC, and a nanosecond within the second. The model keeps
  the instant as one integer, the nanoseconds since 0001-01-01T00:00:00 UTC. Every
  \<open>Time\<close> that \<open>airac.go\<close> formats or takes the year of is in UTC, so the calendar
  functions below are the ones of the UTC location. A \<open>time.Duration\<close> is an
  \<open>int64\<close> count of nanoseconds.
\<close>

type_synonym Time = int
type_synonym Duration = int

definition minDuration :: Duration where
  "minDuration = - 9223372036854775808"

definition maxDuration :: Duration where
  "maxDuration = 9223372036854775807"

definition nsPerDay :: int where
  "nsPerDay = 86400000000000"

text \<open>\<open>t.Add(d)\<close>: the seconds of a \<open>Time\<close> are an \<open>int64\<close> of their own, which an
  offset of at most \<open>2^63\<close> nanoseconds from a date of the Common Era cannot leave.\<close>

definition Add :: "Time \<Rightarrow> Duration \<Rightarrow> Time" where
  "Add t d = t + d"

text \<open>\<open>t.Sub(u)\<close> saturates at the ends of the \<open>Duration\<close> range.\<close>

definition Sub :: "Time \<Rightarrow> Time \<Rightarrow> Duration" where
  "Sub t u =
     (if t - u < minDuration then minDuration
      else if maxDuration < t - u then maxDuration
      else t - u)"

definition isLeap :: "int \<Rightarrow> bool" where
  "isLeap year = (year mod 4 = 0 \<and> (year mod 100 \<noteq> 0 \<or> year mod 400 = 0))"

text \<open>
  \<open>daysSinceEpoch\<close> counts the days from the start of the calendar to January 1 of
  \<open>year\<close>, peeling off cycles of 400, 100 and 4 years. Go counts from a year that is
  1 modulo 400 and far in the past, to stay in unsigned arithmetic; the model counts
  from year 1, which differs by a whole number of 400-year cycles on both sides of
  every conversion.
\<close>

definition daysSinceEpoch :: "int \<Rightarrow> int" where
  "daysSinceEpoch year =
     (let y = year - 1;
          n400 = y div 400;
          y1 = y - 400 * n400;
          n100 = y1 div 100;
          y2 = y1 - 100 * n100;
          n4 = y2 div 4;
          y3 = y2 - 4 * n4
      in 146097 * n400 + 36524 * n100 + 1461 * n4 + 365 * y3)"

definition daysBefore :: "int list" where
  "daysBefore = [0, 31, 59, 90, 120, 151, 181, 212, 243, 273, 304, 334, 365]"

text \<open>\<open>time.Date(year, month, day, hour, min, sec, nsec, time.UTC)\<close>. The month is
  normalised into the year; days, hours, minutes, seconds and nanoseconds out of their
  usual range carry over, which the sum below does by itself.\<close>

definition Date :: "int \<Rightarrow> int \<Rightarrow> int \<Rightarrow> int \<Rightarrow> int \<Rightarrow> int \<Rightarrow> int \<Rightarrow> Time" where
  "Date year month day hour minute sec nsec =
     (let m = month - 1;
          year' = year + m div 12;
          m' = m mod 12;
          d = daysSinceEpoch year' + daysBefore ! nat m'
              + (if isLeap year' \<and> 3 \<le> m' + 1 then 1 else 0)
              + (day - 1)
      in ((d * 86400 + hour * 3600 + minute * 60 + sec) * 1000000000 + nsec))"

text \<open>The day count of an instant, and its split into a year and a 0-based day of the
  year (Go's \<open>absDate\<close>).\<close>

definition absDays :: "Time \<Rightarrow> int" where
  "absDays t = t div nsPerDay"

definition absYearDay :: "int \<Rightarrow> int \<times> int" where
  "absYearDay d0 =
     (let n400 = d0 div 146097;
          d1 = d0 - 146097 * n400;
          n100 = d1 div 36524;
          n100' = n100 - n100 div 4;
          d2 = d1 - 36524 * n100';
          n4 = d2 div 1461;
          d3 = d2 - 1461 * n4;
          n1 = d3 div 365;
          n1' = n1 - n1 div 4;
          d4 = d3 - 365 * n1'
      in (400 * n400 + 100 * n100' + 4 * n4 + n1' + 1, d4))"

definition monthDay :: "int \<Rightarrow> int \<Rightarrow> int \<times> int" where
  "monthDay year yday =
     (if isLeap year \<and> yday = 31 + 29 - 1 then (2, 29)
      else
        let day = (if isLeap year \<and> yday > 31 + 29 - 1 then yday - 1 else yday);
            month = day div 31;
            end = daysBefore ! nat (month + 1)
        in if day \<ge> end then (month + 2, day - end + 1)
           else (month + 1, day - daysBefore ! nat month + 1))"

definition TimeYear :: "Time \<Rightarrow> int" where
  "TimeYear t = fst (absYearDay (absDays t))"

definition TimeYearDay :: "Time \<Rightarrow> int" where
  "TimeYearDay t = snd (absYearDay (absDays t)) + 1"

definition TimeMonth :: "Time \<Rightarrow> int" where
  "TimeMonth t = fst (monthDay (TimeYear t) (snd (absYearDay (absDays t))))"

definition TimeDay :: "Time \<Rightarrow> int" where
  "TimeDay t = snd (monthDay (TimeYear t) (snd (absYearDay (absDays t))))"

section \<open>Decimal output and input\<close>

definition digitChar :: "nat \<Rightarrow> char" where
  "digitChar n = char_of (48 + n)"

fun decimal :: "nat \<Rightarrow> string" where
  "decimal n = (if n < 10 then [digitChar n] else decimal (n div 10) @ [digitChar (n mod 10)])"

declare decimal.simps [simp del]

definition zeroPad :: "nat \<Rightarrow> string \<Rightarrow> string" where
  "zeroPad w s = replicate (w - length s) (CHR ''0'') @ s"

text \<open>\<open>fmt.Sprintf("%02d", n)\<close>: the sign counts in the width.\<close>

definition fmt02d :: "int \<Rightarrow> string" where
  "fmt02d n = (if n < 0 then CHR ''-'' # zeroPad 1 (decimal (nat (- n)))
               else zeroPad 2 (decimal (nat n)))"

text \<open>The layout \<open>"2006-01-02"\<close> of \<open>Time.Format\<close>: the year in at least four digits,
  month and day in two.\<close>

definition appendInt :: "int \<Rightarrow> nat \<Rightarrow> string" where
  "appendInt n w = (if n < 0 then CHR ''-'' # zeroPad w (decimal (nat (- n)))
                    else zeroPad w (decimal (nat n)))"

definition Format :: "Time \<Rightarrow> string" where
  "Format t = appendInt (TimeYear t) 4 @ ''-'' @ appendInt (TimeMonth t) 2 @ ''-''
              @ appendInt (TimeDay t) 2"

definition isDigit :: "char \<Rightarrow> bool" where
  "isDigit c = (48 \<le> (of_char c :: nat) \<and> (of_char c :: nat) \<le> 57)"

definition digitsVal :: "string \<Rightarrow> nat" where
  "digitsVal s = foldl (\<lambda>n c. n * 10 + (of_char c - 48)) 0 s"

text \<open>\<open>strconv.Atoi\<close>: an optional sign, then one or more decimal digits and nothing
  else; a value outside the \<open>int\<close> range is an error as well.\<close>

definition Atoi :: "string \<Rightarrow> int option" where
  "Atoi s =
     (let signed = (s \<noteq> [] \<and> (hd s = CHR ''-'' \<or> hd s = CHR ''+''));
          neg = (s \<noteq> [] \<and> hd s = CHR ''-'');
          body = (if signed then tl s else s)
      in if body = [] \<or> \<not> list_all isDigit body then None
         else let v = int (digitsVal body)
              in if neg then (if 9223372036854775808 < v then None else Some (- v))
                 else (if 9223372036854775807 < v then None else Some v))"

text \<open>
  \<open>strings.TrimSpace\<close> removes leading and trailing white space as Unicode defines it.
  A Go string is a sequence of bytes read as UTF-8, so the white space characters are
  the byte sequences below: the six of ASCII, U+0085 and U+00A0 (two bytes), U+1680,
  U+2000 to U+200A, U+2028, U+2029, U+202F, U+205F and U+3000 (three bytes).
  \<open>spaceWidth\<close> is the width of the white space character a byte sequence starts with,
  0 if it starts with none; \<open>spaceWidthRev\<close> reads the same from the end of a string,
  on the reversed bytes.
\<close>

definition asciiSpace :: "nat \<Rightarrow> bool" where
  "asciiSpace c = (c = 9 \<or> c = 10 \<or> c = 11 \<or> c = 12 \<or> c = 13 \<or> c = 32)"

definition space2 :: "nat \<Rightarrow> nat \<Rightarrow> bool" where
  "space2 a b = (a = 194 \<and> (b = 133 \<or> b = 160))"

definition space3 :: "nat \<Rightarrow> nat \<Rightarrow> nat \<Rightarrow> bool" where
  "space3 a b c =
     ((a = 225 \<and> b = 154 \<and> c = 128)
      \<or> (a = 226 \<and> b = 128 \<and> ((128 \<le> c \<and> c \<le> 138) \<or> c = 168 \<or> c = 169 \<or> c = 175))
      \<or> (a = 226 \<and> b = 129 \<and> c = 159)
      \<or> (a = 227 \<and> b = 128 \<and> c = 128))"

fun spaceWidth :: "string \<Rightarrow> nat" where
  "spaceWidth [] = 0"
| "spaceWidth [a] = (if asciiSpace (of_char a) then 1 else 0)"
| "spaceWidth [a, b] =
     (if asciiSpace (of_char a) then 1
      else if space2 (of_char a) (of_char b) then 2 else 0)"
| "spaceWidth (a # b # c # s) =
     (if asciiSpace (of_char a) then 1
      else if space2 (of_char a) (of_char b) then 2
      else if space3 (of_char a) (of_char b) (of_char c) then 3 else 0)"

fun spaceWidthRev :: "string \<Rightarrow> nat" where
  "spaceWidthRev [] = 0"
| "spaceWidthRev [a] = (if asciiSpace (of_char a) then 1 else 0)"
| "spaceWidthRev [b, a] =
     (if asciiSpace (of_char b) then 1
      else if space2 (of_char a) (of_char b) then 2 else 0)"
| "spaceWidthRev (c # b # a # s) =
     (if asciiSpace (of_char c) then 1
      else if space2 (of_char b) (of_char c) then 2
      else if space3 (of_char a) (of_char b) (of_char c) then 3 else 0)"

fun trimLeft :: "string \<Rightarrow> string" where
  "trimLeft [] = []"
| "trimLeft (a # s) =
     (if spaceWidth (a # s) = 0 then a # s else trimLeft (drop (spaceWidth (a # s) - 1) s))"

declare trimLeft.simps [simp del]

fun trimRightRev :: "string \<Rightarrow> string" where
  "trimRightRev [] = []"
| "trimRightRev (a # s) =
     (if spaceWidthRev (a # s) = 0 then a # s
      else trimRightRev (drop (spaceWidthRev (a # s) - 1) s))"

declare trimRightRev.simps [simp del]

definition TrimSpace :: "string \<Rightarrow> string" where
  "TrimSpace s = rev (trimRightRev (rev (trimLeft s)))"

section \<open>airac.go\<close>

type_synonym AIRAC = "16 word"

datatype error = IllegalAiracId string

definition cycleDuration :: Duration where
  "cycleDuration = 2419200000000000"

definition epoch :: Time where
  "epoch = Date 1901 1 10 0 0 0 0"

definition Effective :: "AIRAC \<Rightarrow> Time" where
  "Effective a = Add epoch (int64 (uint a * cycleDuration))"

definition Year :: "AIRAC \<Rightarrow> int" where
  "Year a = TimeYear (Effective a)"

definition Ordinal :: "AIRAC \<Rightarrow> int" where
  "Ordinal a = go_div (TimeYearDay (Effective a) - 1) 28 + 1"

definition FromDate :: "Time \<Rightarrow> AIRAC" where
  "FromDate date = word_of_int (go_div (Sub date epoch) cycleDuration)"

definition parseIdentifier :: "string \<Rightarrow> error + (int \<times> int)" where
  "parseIdentifier yyoo0 =
     (let yyoo = TrimSpace yyoo0
      in if length yyoo \<noteq> 4 then Inl (IllegalAiracId yyoo)
         else if yyoo ! 0 = CHR ''+'' \<or> yyoo ! 0 = CHR ''-'' then Inl (IllegalAiracId yyoo)
         else case Atoi yyoo of
                None \<Rightarrow> Inl (IllegalAiracId yyoo)
              | Some yyooInt \<Rightarrow>
                  let year = go_div yyooInt 100 + 1900;
                      ordinal = go_mod yyooInt 100
                  in Inr (if year \<le> 1963 then year + 100 else year, ordinal))"

definition FromString :: "string \<Rightarrow> error + AIRAC" where
  "FromString yyoo =
     (case parseIdentifier yyoo of
        Inl err \<Rightarrow> Inl err
      | Inr (year, ordinal) \<Rightarrow>
          let lastAiracOfPreviousYear = FromDate (Date (year - 1) 12 31 0 0 0 0);
              airac = lastAiracOfPreviousYear + word_of_int ordinal
          in if Year airac \<noteq> year then Inl (IllegalAiracId yyoo) else Inr airac)"

definition String :: "AIRAC \<Rightarrow> string" where
  "String a = fmt02d (go_mod (Year a) 100) @ fmt02d (Ordinal a)"

definition LongString :: "AIRAC \<Rightarrow> string" where
  "LongString a =
     (let n = a + 1
      in fmt02d (go_mod (Year a) 100) @ fmt02d (Ordinal a)
         @ '' (effective: '' @ Format (Effective a)
         @ ''; expires: '' @ Format (Add (Effective n) (- 1)) @ '')'')"

section \<open>Notions of the specification\<close>

text \<open>
  The year suffix and the ordinal that a four-digit identifier \<open>YYOO\<close> spells, the
  year the suffix stands for (\<open>yy + 1900\<close>, rolled into the 2000s when that is at most
  1963), and what it means for an ordinal to belong to a year: some cycle in range has
  that year and that ordinal.

  A cycle is in range when its offset from the epoch, the cycle number times 28 days,
  still is a \<open>Duration\<close>; these are the cycles 0 to 3812. The effective date the
  specification gives a cycle is the epoch plus that offset, computed in unbounded
  integers (\<open>nominalEffective\<close>), and the range the source documents for dates ends
  with the year 2192 (\<open>validCycle\<close>).
\<close>

definition yearSuffix :: "string \<Rightarrow> int" where
  "yearSuffix t = int (digitsVal (take 2 t))"

definition ordinalPart :: "string \<Rightarrow> int" where
  "ordinalPart t = int (digitsVal (drop 2 t))"

definition resolveYear :: "int \<Rightarrow> int" where
  "resolveYear yy = (if yy + 1900 \<le> 1963 then yy + 1900 + 100 else yy + 1900)"

definition inRange :: "AIRAC \<Rightarrow> bool" where
  "inRange a = (uint a * cycleDuration \<le> maxDuration)"

definition nominalEffective :: "AIRAC \<Rightarrow> Time" where
  "nominalEffective a = epoch + uint a * cycleDuration"

definition validCycle :: "AIRAC \<Rightarrow> bool" where
  "validCycle a = (TimeYear (nominalEffective a) \<le> 2192)"

definition ordinalInYear :: "int \<Rightarrow> int \<Rightarrow> bool" where
  "ordinalInYear y oo = (\<exists>c :: AIRAC. inRange c \<and> Year c = y \<and> Ordinal c = oo)"

section \<open>The calendar functions agree with each other\<close>

lemma div_bounds:
  fixes a k :: int
  assumes "0 < k"
  shows "k * (a div k) \<le> a" "a < k * (a div k) + k"
proof -
  have "a = k * (a div k) + a mod k" by simp
  moreover have "0 \<le> a mod k" "a mod k < k" using assms by simp_all
  ultimately show "k * (a div k) \<le> a" "a < k * (a div k) + k" by linarith+
qed

lemma absYearDay_decomp:
  obtains q b c e r where
    "absYearDay d = (400 * q + 100 * b + 4 * c + e + 1, r)"
    "d = 146097 * q + 36524 * b + 1461 * c + 365 * e + r"
    "0 \<le> b" "b \<le> 3" "0 \<le> c" "c \<le> 24" "0 \<le> e" "e \<le> 3" "0 \<le> r" "r \<le> 365"
    "r = 365 \<Longrightarrow> e = 3 \<and> (c \<noteq> 24 \<or> b = 3)"
proof -
  define q where "q = d div 146097"
  define d1 where "d1 = d - 146097 * q"
  define n100 where "n100 = d1 div 36524"
  define b where "b = n100 - n100 div 4"
  define d2 where "d2 = d1 - 36524 * b"
  define c where "c = d2 div 1461"
  define d3 where "d3 = d2 - 1461 * c"
  define n1 where "n1 = d3 div 365"
  define e where "e = n1 - n1 div 4"
  define r where "r = d3 - 365 * e"
  have d1: "0 \<le> d1" "d1 \<le> 146096"
    unfolding d1_def q_def using div_bounds [of 146097 d] by linarith+
  have n100: "0 \<le> n100" "n100 \<le> 4" "36524 * n100 \<le> d1" "d1 < 36524 * n100 + 36524"
    unfolding n100_def using d1 div_bounds [of 36524 d1] by linarith+
  have b: "0 \<le> b" "b \<le> 3" "b = (if n100 = 4 then 3 else n100)"
    unfolding b_def using n100(1,2) div_bounds [of 4 n100] by (simp; linarith)+
  have d2: "0 \<le> d2" "d2 \<le> 36524" "d2 = 36524 \<Longrightarrow> b = 3"
    unfolding d2_def using d1 n100 b by (auto split: if_splits)
  have c: "0 \<le> c" "c \<le> 24" "1461 * c \<le> d2" "d2 < 1461 * c + 1461"
    unfolding c_def using d2(1,2) div_bounds [of 1461 d2] by linarith+
  have d3: "0 \<le> d3" "d3 \<le> 1460" "c = 24 \<Longrightarrow> d3 = 1460 \<Longrightarrow> d2 = 36524"
    unfolding d3_def using c d2 by auto
  have n1: "0 \<le> n1" "n1 \<le> 4" "365 * n1 \<le> d3" "d3 < 365 * n1 + 365"
    unfolding n1_def using d3(1,2) div_bounds [of 365 d3] by linarith+
  have e: "0 \<le> e" "e \<le> 3" "e = (if n1 = 4 then 3 else n1)"
    unfolding e_def using n1(1,2) div_bounds [of 4 n1] by (simp; linarith)+
  have r: "0 \<le> r" "r \<le> 365" "r = 365 \<Longrightarrow> e = 3 \<and> d3 = 1460"
    unfolding r_def using d3 n1 e by (auto split: if_splits)
  have 1: "absYearDay d = (400 * q + 100 * b + 4 * c + e + 1, r)"
    unfolding absYearDay_def Let_def q_def [symmetric] d1_def [symmetric] n100_def [symmetric]
      b_def [symmetric] d2_def [symmetric] c_def [symmetric] d3_def [symmetric]
      n1_def [symmetric] e_def [symmetric] r_def [symmetric]
    by simp
  have 2: "d = 146097 * q + 36524 * b + 1461 * c + 365 * e + r"
    by (simp add: r_def d3_def d2_def d1_def)
  have 3: "r = 365 \<Longrightarrow> e = 3 \<and> (c \<noteq> 24 \<or> b = 3)"
    using r(3) d3(3) d2(3) by blast
  show thesis
    by (rule that [OF 1 2 b(1,2) c(1,2) e(1,2) r(1,2) 3])
qed


lemma dse_decomp:
  assumes "0 \<le> b" "b \<le> 3" "0 \<le> c" "c \<le> 24" "0 \<le> e" "e \<le> 3"
  shows "daysSinceEpoch (400 * q + 100 * b + 4 * c + e + 1)
         = 146097 * q + 36524 * b + 1461 * c + 365 * e"
proof -
  define y where "y = 400 * q + 100 * b + 4 * c + e + 1 - 1"
  define n400 where "n400 = y div 400"
  define y1 where "y1 = y - 400 * n400"
  define n100 where "n100 = y1 div 100"
  define y2 where "y2 = y1 - 100 * n100"
  define n4 where "n4 = y2 div 4"
  define y3 where "y3 = y2 - 4 * n4"
  have n400: "n400 = q"
    unfolding n400_def
    by (rule int_div_pos_eq [where r = "100 * b + 4 * c + e"]) (use assms in \<open>simp_all add: y_def\<close>)
  have y1: "y1 = 100 * b + 4 * c + e"
    by (simp add: y1_def n400 y_def)
  have n100: "n100 = b"
    unfolding n100_def y1
    by (rule int_div_pos_eq [where r = "4 * c + e"]) (use assms in simp_all)
  have y2: "y2 = 4 * c + e"
    by (simp add: y2_def n100 y1)
  have n4: "n4 = c"
    unfolding n4_def y2
    by (rule int_div_pos_eq [where r = e]) (use assms in simp_all)
  have y3: "y3 = e"
    by (simp add: y3_def n4 y2)
  have "daysSinceEpoch (400 * q + 100 * b + 4 * c + e + 1)
        = 146097 * n400 + 36524 * n100 + 1461 * n4 + 365 * y3"
    unfolding daysSinceEpoch_def Let_def y_def [symmetric] n400_def [symmetric]
      y1_def [symmetric] n100_def [symmetric] y2_def [symmetric] n4_def [symmetric]
      y3_def [symmetric]
    by (rule refl)
  then show ?thesis
    by (simp add: n400 n100 n4 y3)
qed

lemma isLeap_decomp:
  assumes "0 \<le> b" "b \<le> 3" "0 \<le> c" "c \<le> 24" "0 \<le> e" "e \<le> 3"
  shows "isLeap (400 * q + 100 * b + 4 * c + e + 1) \<longleftrightarrow> e = 3 \<and> (c \<noteq> 24 \<or> b = 3)"
proof -
  define y where "y = 400 * q + 100 * b + 4 * c + e + 1"
  have "isLeap y \<longleftrightarrow> e = 3 \<and> (c \<noteq> 24 \<or> b = 3)"
  proof (cases "e = 3")
    case False
    have "y mod 4 = e + 1"
      by (rule int_mod_pos_eq [where q = "100 * q + 25 * b + c"])
        (use assms False in \<open>simp_all add: y_def\<close>)
    then show ?thesis
      using False assms by (simp add: isLeap_def)
  next
    case e3: True
    have m4: "y mod 4 = 0"
      by (rule int_mod_pos_eq [where q = "100 * q + 25 * b + c + 1"])
        (use e3 in \<open>simp_all add: y_def\<close>)
    show ?thesis
    proof (cases "c = 24")
      case False
      have "y mod 100 = 4 * c + 4"
        by (rule int_mod_pos_eq [where q = "4 * q + b"])
          (use assms e3 False in \<open>simp_all add: y_def\<close>)
      then show ?thesis
        using False e3 m4 assms by (simp add: isLeap_def)
    next
      case c24: True
      have m100: "y mod 100 = 0"
        by (rule int_mod_pos_eq [where q = "4 * q + b + 1"])
          (use e3 c24 in \<open>simp_all add: y_def\<close>)
      show ?thesis
      proof (cases "b = 3")
        case False
        have "y mod 400 = 100 * b + 100"
          by (rule int_mod_pos_eq [where q = q])
            (use assms e3 c24 False in \<open>simp_all add: y_def\<close>)
        then show ?thesis
          using False e3 c24 m4 m100 assms by (simp add: isLeap_def)
      next
        case True
        have "y mod 400 = 0"
          by (rule int_mod_pos_eq [where q = "q + 1"])
            (use e3 c24 True in \<open>simp_all add: y_def\<close>)
        then show ?thesis
          using True e3 c24 m4 m100 by (simp add: isLeap_def)
      qed
    qed
  qed
  then show ?thesis
    by (simp only: y_def)
qed


lemma absYearDay_sound:
  assumes "absYearDay d = (y, r)"
  shows "daysSinceEpoch y + r = d" "0 \<le> r" "r < (if isLeap y then 366 else 365)"
proof -
  obtain q b c e r' where h:
    "absYearDay d = (400 * q + 100 * b + 4 * c + e + 1, r')"
    "d = 146097 * q + 36524 * b + 1461 * c + 365 * e + r'"
    "0 \<le> b" "b \<le> 3" "0 \<le> c" "c \<le> 24" "0 \<le> e" "e \<le> 3" "0 \<le> r'" "r' \<le> 365"
    "r' = 365 \<Longrightarrow> e = 3 \<and> (c \<noteq> 24 \<or> b = 3)"
    by (rule absYearDay_decomp [of d]) blast
  have y: "y = 400 * q + 100 * b + 4 * c + e + 1" and r: "r = r'"
    using assms h(1) by simp_all
  have dse: "daysSinceEpoch y = 146097 * q + 36524 * b + 1461 * c + 365 * e"
    unfolding y by (rule dse_decomp [OF h(3-8)])
  have leap: "isLeap y \<longleftrightarrow> e = 3 \<and> (c \<noteq> 24 \<or> b = 3)"
    unfolding y by (rule isLeap_decomp [OF h(3-8)])
  show "daysSinceEpoch y + r = d"
    using dse h(2) r by simp
  show "0 \<le> r"
    using h(9) r by simp
  show "r < (if isLeap y then 366 else 365)"
  proof (cases "r' = 365")
    case True
    then have "isLeap y" using h(11) leap by simp
    then show ?thesis using True r by simp
  next
    case False
    then have "r < 365" using h(10) r by simp
    then show ?thesis by simp
  qed
qed

lemma year_decomp:
  obtains q b c e :: int where
    "y = 400 * q + 100 * b + 4 * c + e + 1"
    "0 \<le> b" "b \<le> 3" "0 \<le> c" "c \<le> 24" "0 \<le> e" "e \<le> 3"
proof -
  define q where "q = (y - 1) div 400"
  define m where "m = (y - 1) - 400 * q"
  define b where "b = m div 100"
  define m' where "m' = m - 100 * b"
  define c where "c = m' div 4"
  define e where "e = m' - 4 * c"
  have m: "0 \<le> m" "m \<le> 399"
    unfolding m_def q_def using div_bounds [of 400 "y - 1"] by linarith+
  have b: "0 \<le> b" "b \<le> 3" "100 * b \<le> m" "m < 100 * b + 100"
    unfolding b_def using m div_bounds [of 100 m] by linarith+
  have m': "0 \<le> m'" "m' \<le> 99"
    unfolding m'_def using b by linarith+
  have c: "0 \<le> c" "c \<le> 24" "4 * c \<le> m'" "m' < 4 * c + 4"
    unfolding c_def using m' div_bounds [of 4 m'] by linarith+
  have e: "0 \<le> e" "e \<le> 3"
    unfolding e_def using c by linarith+
  have "y = 400 * q + 100 * b + 4 * c + e + 1"
    by (simp add: e_def m'_def m_def)
  then show thesis
    using b(1,2) c(1,2) e by (rule that)
qed

lemma daysSinceEpoch_Suc:
  "daysSinceEpoch (y + 1) = daysSinceEpoch y + (if isLeap y then 366 else 365)"
proof -
  obtain q b c e :: int where h:
    "y = 400 * q + 100 * b + 4 * c + e + 1"
    "0 \<le> b" "b \<le> 3" "0 \<le> c" "c \<le> 24" "0 \<le> e" "e \<le> 3"
    by (rule year_decomp [of y]) blast
  have dse: "daysSinceEpoch y = 146097 * q + 36524 * b + 1461 * c + 365 * e"
    unfolding h(1) by (rule dse_decomp [OF h(2-7)])
  have leap: "isLeap y \<longleftrightarrow> e = 3 \<and> (c \<noteq> 24 \<or> b = 3)"
    unfolding h(1) by (rule isLeap_decomp [OF h(2-7)])
  consider "e < 3" | "e = 3" "c < 24" | "e = 3" "c = 24" "b < 3" | "e = 3" "c = 24" "b = 3"
    using h by linarith
  then show ?thesis
  proof cases
    case 1
    have "y + 1 = 400 * q + 100 * b + 4 * c + (e + 1) + 1" using h(1) by simp
    moreover have "daysSinceEpoch (400 * q + 100 * b + 4 * c + (e + 1) + 1)
        = 146097 * q + 36524 * b + 1461 * c + 365 * (e + 1)"
      by (rule dse_decomp) (use h 1 in simp_all)
    ultimately show ?thesis using dse leap 1 by simp
  next
    case 2
    have "y + 1 = 400 * q + 100 * b + 4 * (c + 1) + 0 + 1" using h(1) 2 by simp
    moreover have "daysSinceEpoch (400 * q + 100 * b + 4 * (c + 1) + 0 + 1)
        = 146097 * q + 36524 * b + 1461 * (c + 1) + 365 * 0"
      by (rule dse_decomp) (use h 2 in simp_all)
    ultimately show ?thesis using dse leap 2 by simp
  next
    case 3
    have "y + 1 = 400 * q + 100 * (b + 1) + 4 * 0 + 0 + 1" using h(1) 3 by simp
    moreover have "daysSinceEpoch (400 * q + 100 * (b + 1) + 4 * 0 + 0 + 1)
        = 146097 * q + 36524 * (b + 1) + 1461 * 0 + 365 * 0"
      by (rule dse_decomp) (use h 3 in simp_all)
    ultimately show ?thesis using dse leap 3 by simp
  next
    case 4
    have "y + 1 = 400 * (q + 1) + 100 * 0 + 4 * 0 + 0 + 1" using h(1) 4 by simp
    moreover have "daysSinceEpoch (400 * (q + 1) + 100 * 0 + 4 * 0 + 0 + 1)
        = 146097 * (q + 1) + 36524 * 0 + 1461 * 0 + 365 * 0"
      by (rule dse_decomp) simp_all
    ultimately show ?thesis using dse leap 4 by simp
  qed
qed

lemma daysSinceEpoch_mono:
  assumes "a \<le> b"
  shows "daysSinceEpoch a \<le> daysSinceEpoch b"
  using assms
proof (induction b rule: int_ge_induct)
  case base
  show ?case by simp
next
  case (step i)
  have "daysSinceEpoch i \<le> daysSinceEpoch (i + 1)"
    by (simp add: daysSinceEpoch_Suc)
  then show ?case using step.IH by linarith
qed

lemma absYearDay_unique:
  assumes "daysSinceEpoch y \<le> d" "d < daysSinceEpoch (y + 1)"
  shows "absYearDay d = (y, d - daysSinceEpoch y)"
proof -
  obtain y' r where yr: "absYearDay d = (y', r)"
    by (cases "absYearDay d")
  note s = absYearDay_sound [OF yr]
  have up: "d < daysSinceEpoch (y' + 1)"
    using s by (simp add: daysSinceEpoch_Suc)
  have lo: "daysSinceEpoch y' \<le> d"
    using s by linarith
  have "y' = y"
  proof (rule ccontr)
    assume "y' \<noteq> y"
    then consider "y' + 1 \<le> y" | "y + 1 \<le> y'" by linarith
    then show False
    proof cases
      case 1
      then have "daysSinceEpoch (y' + 1) \<le> daysSinceEpoch y" by (rule daysSinceEpoch_mono)
      then show False using up assms(1) by linarith
    next
      case 2
      then have "daysSinceEpoch (y + 1) \<le> daysSinceEpoch y'" by (rule daysSinceEpoch_mono)
      then show False using lo assms(2) by linarith
    qed
  qed
  then show ?thesis using yr s(1) by auto
qed

section \<open>Cycles whose offset from the epoch is a Duration\<close>

lemma int64_id:
  assumes "- 9223372036854775808 \<le> x" "x \<le> 9223372036854775807"
  shows "int64 x = x"
proof -
  have "(x + 9223372036854775808) mod 18446744073709551616 = x + 9223372036854775808"
    by (rule mod_pos_pos_trivial) (use assms in simp_all)
  then show ?thesis by (simp add: int64_def)
qed

lemma go_div_nonneg:
  assumes "0 \<le> a" "0 < b"
  shows "go_div a b = a div b"
proof (cases "a = 0")
  case True
  then show ?thesis by (simp add: go_div_def)
next
  case False
  then have "sgn a = 1" using assms(1) by simp
  moreover have "sgn b = 1" using assms(2) by simp
  ultimately show ?thesis using assms by (simp add: go_div_def)
qed

lemma epoch_days: "epoch = 693969 * nsPerDay"
  by (simp add: epoch_def Date_def daysSinceEpoch_def isLeap_def daysBefore_def nsPerDay_def
      Let_def)

lemma cycleDuration_days: "cycleDuration = 28 * nsPerDay"
  by (simp add: cycleDuration_def nsPerDay_def)

lemma absDays_days: "absDays (n * nsPerDay) = n"
  by (simp add: absDays_def nsPerDay_def)

lemma Effective_days:
  assumes "uint a \<le> 3812"
  shows "Effective a = (693969 + 28 * uint a) * nsPerDay"
proof -
  have "0 \<le> uint a" by simp
  then have "0 \<le> uint a * 2419200000000000"
    and "uint a * 2419200000000000 \<le> 3812 * 2419200000000000"
    using assms by simp_all
  then have "int64 (uint a * cycleDuration) = uint a * cycleDuration"
    unfolding cycleDuration_def by (intro int64_id) linarith+
  then show ?thesis
    by (simp add: Effective_def Add_def epoch_days cycleDuration_days algebra_simps)
qed

lemma FromDate_days:
  assumes "693969 \<le> n" "n \<le> 800720"
  shows "FromDate (n * nsPerDay) = word_of_int ((n - 693969) div 28)"
proof -
  have d: "n * nsPerDay - epoch = (n - 693969) * nsPerDay"
    by (simp add: epoch_days algebra_simps)
  have "Sub (n * nsPerDay) epoch = (n - 693969) * nsPerDay"
    unfolding Sub_def d using assms by (simp add: minDuration_def maxDuration_def nsPerDay_def)
  moreover have "go_div ((n - 693969) * nsPerDay) cycleDuration
      = ((n - 693969) * nsPerDay) div cycleDuration"
    by (rule go_div_nonneg) (use assms in \<open>simp_all add: nsPerDay_def cycleDuration_def\<close>)
  moreover have "((n - 693969) * nsPerDay) div cycleDuration = (n - 693969) div 28"
    by (simp add: cycleDuration_def nsPerDay_def)
  ultimately show ?thesis by (simp add: FromDate_def)
qed

lemma Year_days:
  assumes "uint a \<le> 3812"
  shows "Year a = fst (absYearDay (693969 + 28 * uint a))"
  by (simp add: Year_def TimeYear_def Effective_days [OF assms] absDays_days)

lemma Ordinal_days:
  assumes "uint a \<le> 3812"
  shows "Ordinal a = snd (absYearDay (693969 + 28 * uint a)) div 28 + 1"
proof -
  obtain y r where yr: "absYearDay (693969 + 28 * uint a) = (y, r)"
    by (cases "absYearDay (693969 + 28 * uint a)")
  have "0 \<le> r" using absYearDay_sound(2) [OF yr] .
  then have "go_div r 28 = r div 28" by (rule go_div_nonneg) simp
  then show ?thesis
    by (simp add: Ordinal_def TimeYearDay_def Effective_days [OF assms] absDays_days yr)
qed

lemma Date_Jan1: "Date y 1 1 0 0 0 0 = daysSinceEpoch y * nsPerDay"
  by (simp add: Date_def daysBefore_def nsPerDay_def Let_def)

lemma Date_Dec31: "Date (y - 1) 12 31 0 0 0 0 = (daysSinceEpoch y - 1) * nsPerDay"
proof -
  have "daysSinceEpoch y = daysSinceEpoch (y - 1) + (if isLeap (y - 1) then 366 else 365)"
    using daysSinceEpoch_Suc [of "y - 1"] by simp
  then show ?thesis
    by (simp add: Date_def daysBefore_def nsPerDay_def Let_def)
qed

lemma daysSinceEpoch_window:
  assumes "1964 \<le> y" "y \<le> 2064"
  shows "716970 \<le> daysSinceEpoch y" "daysSinceEpoch y \<le> 753495"
proof -
  have "daysSinceEpoch 1964 = 716970" "daysSinceEpoch 2064 = 753495"
    by (simp_all add: daysSinceEpoch_def Let_def)
  then show "716970 \<le> daysSinceEpoch y" "daysSinceEpoch y \<le> 753495"
    using daysSinceEpoch_mono [OF assms(1)] daysSinceEpoch_mono [OF assms(2)] by simp_all
qed

lemma lastAirac_uint:
  assumes "1964 \<le> y" "y \<le> 2064"
  shows "FromDate (Date (y - 1) 12 31 0 0 0 0)
         = word_of_int ((daysSinceEpoch y - 693970) div 28)"
    and "0 \<le> (daysSinceEpoch y - 693970) div 28"
    and "(daysSinceEpoch y - 693970) div 28 \<le> 2125"
proof -
  note w = daysSinceEpoch_window [OF assms]
  have "FromDate ((daysSinceEpoch y - 1) * nsPerDay)
        = word_of_int ((daysSinceEpoch y - 1 - 693969) div 28)"
    by (rule FromDate_days) (use w in simp_all)
  then show "FromDate (Date (y - 1) 12 31 0 0 0 0)
         = word_of_int ((daysSinceEpoch y - 693970) div 28)"
    by (simp add: Date_Dec31)
  show "0 \<le> (daysSinceEpoch y - 693970) div 28"
    using w div_bounds [of 28 "daysSinceEpoch y - 693970"] by linarith
  show "(daysSinceEpoch y - 693970) div 28 \<le> 2125"
    using w div_bounds [of 28 "daysSinceEpoch y - 693970"] by linarith
qed

lemma uint_small:
  assumes "0 \<le> k" "k \<le> 65535"
  shows "uint (word_of_int k :: AIRAC) = k"
proof -
  have "k mod 2 ^ 16 = k"
    by (rule mod_pos_pos_trivial) (use assms in simp_all)
  then show ?thesis
    by (simp add: uint_word_of_int take_bit_eq_mod)
qed

lemma cycle_split:
  assumes "uint a \<le> 3812" "Year a = y" "1964 \<le> y" "y \<le> 2063"
  shows "uint a = (daysSinceEpoch y - 693970) div 28 + Ordinal a"
proof -
  obtain y' r where yr: "absYearDay (693969 + 28 * uint a) = (y', r)"
    by (cases "absYearDay (693969 + 28 * uint a)")
  have y': "y' = y"
    using assms(2) by (simp add: Year_days [OF assms(1)] yr)
  note s = absYearDay_sound [OF yr]
  have ord: "Ordinal a = r div 28 + 1"
    by (simp add: Ordinal_days [OF assms(1)] yr)
  define A where "A = daysSinceEpoch y - 693970"
  have eq: "28 * uint a = A + 1 + r"
    using s(1) y' by (simp add: A_def)
  define k1 where "k1 = A div 28"
  define k2 where "k2 = r div 28"
  have b1: "28 * k1 \<le> A" "A < 28 * k1 + 28"
    unfolding k1_def by (rule div_bounds; simp)+
  have b2: "28 * k2 \<le> r" "r < 28 * k2 + 28"
    unfolding k2_def by (rule div_bounds; simp)+
  have "k1 + k2 < uint a" "uint a < k1 + k2 + 2"
    using eq b1 b2 by linarith+
  then have "A div 28 + r div 28 + 1 = uint a"
    unfolding k1_def k2_def by linarith
  then show ?thesis by (simp add: ord A_def)
qed

lemma lastAirac_plus_Ordinal:
  assumes "uint a \<le> 3812" "Year a = y" "1964 \<le> y" "y \<le> 2063"
  shows "FromDate (Date (y - 1) 12 31 0 0 0 0) + word_of_int (Ordinal a) = a"
proof -
  have "y \<le> 2064" using assms(4) by simp
  note l = lastAirac_uint [OF assms(3) this]
  have "FromDate (Date (y - 1) 12 31 0 0 0 0) + word_of_int (Ordinal a)
        = (word_of_int ((daysSinceEpoch y - 693970) div 28 + Ordinal a) :: AIRAC)"
    by (simp add: l(1))
  also have "\<dots> = word_of_int (uint a)"
    by (simp add: cycle_split [OF assms])
  finally show ?thesis by simp
qed

section \<open>Identifiers: printing and parsing\<close>

lemma of_char_digitChar:
  assumes "n < 10"
  shows "(of_char (digitChar n) :: nat) = 48 + n"
  using assms by (simp add: digitChar_def)

lemma isDigit_digitChar:
  assumes "n < 10"
  shows "isDigit (digitChar n)"
  using assms by (simp add: isDigit_def of_char_digitChar)

lemma digitChar_0: "digitChar 0 = CHR ''0''"
  by code_simp

lemma fmt02d_two_digits:
  assumes "0 \<le> n" "n < 100"
  shows "fmt02d n = [digitChar (nat n div 10), digitChar (nat n mod 10)]"
proof (cases "nat n < 10")
  case True
  then have "decimal (nat n) = [digitChar (nat n)]"
    by (simp add: decimal.simps)
  then show ?thesis
    using True assms by (simp add: fmt02d_def zeroPad_def digitChar_0 [symmetric])
next
  case False
  have "nat n div 10 < 10"
    using assms by simp
  then have "decimal (nat n div 10) = [digitChar (nat n div 10)]"
    by (simp add: decimal.simps)
  then have "decimal (nat n) = [digitChar (nat n div 10), digitChar (nat n mod 10)]"
    using False by (subst decimal.simps) simp
  then show ?thesis
    using assms by (simp add: fmt02d_def zeroPad_def)
qed

lemma digit_not_space:
  assumes "isDigit a"
  shows "\<not> asciiSpace (of_char a)" "\<not> space2 (of_char a) x" "\<not> space2 x (of_char a)"
    "\<not> space3 (of_char a) x y" "\<not> space3 x y (of_char a)"
  using assms by (auto simp: isDigit_def asciiSpace_def space2_def space3_def)

lemma spaceWidth_digit:
  assumes "isDigit a"
  shows "spaceWidth (a # s) = 0"
proof (cases s)
  case Nil
  then show ?thesis using digit_not_space [OF assms] by simp
next
  case (Cons b s')
  then show ?thesis using digit_not_space [OF assms] by (cases s') simp_all
qed

lemma spaceWidthRev_digit:
  assumes "isDigit a"
  shows "spaceWidthRev (a # s) = 0"
proof (cases s)
  case Nil
  then show ?thesis using digit_not_space [OF assms] by simp
next
  case (Cons b s')
  then show ?thesis using digit_not_space [OF assms] by (cases s') simp_all
qed

lemma TrimSpace_digits:
  assumes "isDigit a" "isDigit d"
  shows "TrimSpace (a # s @ [d]) = a # s @ [d]"
proof -
  have "trimLeft (a # s @ [d]) = a # s @ [d]"
    by (simp add: trimLeft.simps spaceWidth_digit [OF assms(1)])
  moreover have "trimRightRev (d # rev s @ [a]) = d # rev s @ [a]"
    by (simp add: trimRightRev.simps spaceWidthRev_digit [OF assms(2)])
  ultimately show ?thesis
    by (simp add: TrimSpace_def)
qed

lemma digitsVal_4:
  "digitsVal [a, b, c, d] =
     1000 * (of_char a - 48) + 100 * (of_char b - 48) + 10 * (of_char c - 48) + (of_char d - 48)"
  by (simp add: digitsVal_def)

lemma digitsVal_2:
  "digitsVal [a, b] = 10 * (of_char a - 48) + (of_char b - 48)"
  by (simp add: digitsVal_def)

lemma digit_val_bound:
  assumes "isDigit a"
  shows "(of_char a :: nat) - 48 \<le> 9"
  using assms unfolding isDigit_def by linarith

lemma Atoi_4_digits:
  assumes "list_all isDigit [a, b, c, d]"
  shows "Atoi [a, b, c, d] = Some (int (digitsVal [a, b, c, d]))"
proof -
  have ns: "a \<noteq> CHR ''-''" "a \<noteq> CHR ''+''"
    using assms by (auto simp: isDigit_def)
  have "digitsVal [a, b, c, d] \<le> 9999"
    using assms digit_val_bound [of a] digit_val_bound [of b] digit_val_bound [of c]
      digit_val_bound [of d]
    by (simp add: digitsVal_4)
  then have "\<not> 9223372036854775807 < int (digitsVal [a, b, c, d])"
    by linarith
  then show ?thesis
    using ns assms by (simp add: Atoi_def Let_def)
qed

lemma Atoi_not_digits:
  assumes "\<not> list_all isDigit s" "s \<noteq> []" "hd s \<noteq> CHR ''-''" "hd s \<noteq> CHR ''+''"
  shows "Atoi s = None"
  using assms by (simp add: Atoi_def Let_def)

lemma split_yyoo:
  assumes "list_all isDigit [a, b, c, d]"
  shows "go_div (int (digitsVal [a, b, c, d])) 100 = yearSuffix [a, b, c, d]"
    and "go_mod (int (digitsVal [a, b, c, d])) 100 = ordinalPart [a, b, c, d]"
    and "0 \<le> yearSuffix [a, b, c, d]" "yearSuffix [a, b, c, d] \<le> 99"
    and "0 \<le> ordinalPart [a, b, c, d]" "ordinalPart [a, b, c, d] \<le> 99"
proof -
  define yy where "yy = 10 * ((of_char a :: nat) - 48) + (of_char b - 48)"
  define oo where "oo = 10 * ((of_char c :: nat) - 48) + (of_char d - 48)"
  have yy: "yy \<le> 99" and oo: "oo \<le> 99"
    using assms digit_val_bound [of a] digit_val_bound [of b] digit_val_bound [of c]
      digit_val_bound [of d]
    by (simp_all add: yy_def oo_def)
  have v: "int (digitsVal [a, b, c, d]) = 100 * int yy + int oo"
    by (simp add: digitsVal_4 yy_def oo_def)
  have ys: "yearSuffix [a, b, c, d] = int yy" and os: "ordinalPart [a, b, c, d] = int oo"
    by (simp_all add: yearSuffix_def ordinalPart_def digitsVal_2 yy_def oo_def)
  have q: "(100 * int yy + int oo) div 100 = int yy"
    by (rule int_div_pos_eq [where r = "int oo"]) (use oo in simp_all)
  have "go_div (100 * int yy + int oo) 100 = (100 * int yy + int oo) div 100"
    by (rule go_div_nonneg) simp_all
  then have g: "go_div (100 * int yy + int oo) 100 = int yy"
    using q by simp
  show "go_div (int (digitsVal [a, b, c, d])) 100 = yearSuffix [a, b, c, d]"
    by (simp add: v g ys)
  show "go_mod (int (digitsVal [a, b, c, d])) 100 = ordinalPart [a, b, c, d]"
    by (simp add: v go_mod_def g os)
  show "0 \<le> yearSuffix [a, b, c, d]" "yearSuffix [a, b, c, d] \<le> 99"
    "0 \<le> ordinalPart [a, b, c, d]" "ordinalPart [a, b, c, d] \<le> 99"
    using yy oo by (simp_all add: ys os)
qed

lemma length_4:
  assumes "length t = 4"
  obtains a b c d where "t = [a, b, c, d]"
proof -
  from assms obtain a t1 where 1: "t = a # t1" "length t1 = 3"
    by (cases t) simp_all
  then obtain b t2 where 2: "t1 = b # t2" "length t2 = 2"
    by (cases t1) simp_all
  then obtain c t3 where 3: "t2 = c # t3" "length t3 = 1"
    by (cases t2) simp_all
  then obtain d where 4: "t3 = [d]"
    by (cases t3) simp_all
  show thesis
    using 1 2 3 4 by (intro that [of a b c d]) simp
qed

lemma parseIdentifier_cases:
  "parseIdentifier s =
     (if length (TrimSpace s) = 4 \<and> list_all isDigit (TrimSpace s)
      then Inr (resolveYear (yearSuffix (TrimSpace s)), ordinalPart (TrimSpace s))
      else Inl (IllegalAiracId (TrimSpace s)))"
proof (cases "length (TrimSpace s) = 4")
  case False
  then show ?thesis by (simp add: parseIdentifier_def Let_def)
next
  case True
  then obtain a b c d where t: "TrimSpace s = [a, b, c, d]"
    by (rule length_4)
  show ?thesis
  proof (cases "list_all isDigit [a, b, c, d]")
    case dig: True
    then have ns: "a \<noteq> CHR ''-''" "a \<noteq> CHR ''+''"
      by (auto simp: isDigit_def)
    show ?thesis
      using dig ns
      by (simp add: parseIdentifier_def Let_def t Atoi_4_digits [OF dig] split_yyoo(1,2) [OF dig]
          resolveYear_def)
  next
    case False
    show ?thesis
    proof (cases "a = CHR ''+'' \<or> a = CHR ''-''")
      case True
      then show ?thesis using False by (auto simp: parseIdentifier_def Let_def t)
    next
      case nosign: False
      then have "Atoi [a, b, c, d] = None"
        using False by (intro Atoi_not_digits) simp_all
      then show ?thesis
        using False nosign by (simp add: parseIdentifier_def Let_def t)
    qed
  qed
qed

lemma String_digits:
  assumes "0 \<le> y" "0 \<le> oo" "oo < 100"
  obtains a b c d where
    "fmt02d (go_mod y 100) @ fmt02d oo = [a, b, c, d]"
    "list_all isDigit [a, b, c, d]"
    "yearSuffix [a, b, c, d] = y mod 100"
    "ordinalPart [a, b, c, d] = oo"
proof -
  define m where "m = y mod 100"
  have m: "0 \<le> m" "m < 100"
    by (simp_all add: m_def)
  have gm: "go_mod y 100 = m"
  proof -
    have "go_div y 100 = y div 100"
      by (rule go_div_nonneg) (use assms in simp_all)
    then show ?thesis
      by (simp add: go_mod_def m_def minus_mult_div_eq_mod)
  qed
  define a where "a = digitChar (nat m div 10)"
  define b where "b = digitChar (nat m mod 10)"
  define c where "c = digitChar (nat oo div 10)"
  define d where "d = digitChar (nat oo mod 10)"
  have lt: "nat m div 10 < 10" "nat m mod 10 < 10" "nat oo div 10 < 10" "nat oo mod 10 < 10"
    using m assms by simp_all
  have 1: "fmt02d (go_mod y 100) @ fmt02d oo = [a, b, c, d]"
    by (simp add: gm fmt02d_two_digits [OF m] fmt02d_two_digits [OF assms(2,3)]
        a_def b_def c_def d_def)
  have 2: "list_all isDigit [a, b, c, d]"
    using lt by (simp add: a_def b_def c_def d_def isDigit_digitChar)
  have 3: "yearSuffix [a, b, c, d] = y mod 100"
  proof -
    have "yearSuffix [a, b, c, d] = int (10 * (nat m div 10) + nat m mod 10)"
      using lt by (simp add: yearSuffix_def digitsVal_2 a_def b_def of_char_digitChar)
    also have "\<dots> = int (nat m)" by simp
    finally show ?thesis using m by (simp add: m_def)
  qed
  have 4: "ordinalPart [a, b, c, d] = oo"
  proof -
    have "ordinalPart [a, b, c, d] = int (10 * (nat oo div 10) + nat oo mod 10)"
      using lt by (simp add: ordinalPart_def digitsVal_2 c_def d_def of_char_digitChar)
    also have "\<dots> = int (nat oo)" by simp
    finally show ?thesis using assms by simp
  qed
  show thesis
    using 1 2 3 4 by (rule that)
qed

section \<open>Cycles in range and the parser's year check\<close>

lemma inRange_iff: "inRange a \<longleftrightarrow> uint a \<le> 3812"
proof
  assume "inRange a"
  then have "uint a * 2419200000000000 < 3813 * 2419200000000000"
    by (simp add: inRange_def cycleDuration_def maxDuration_def)
  then have "uint a < 3813"
    by simp
  then show "uint a \<le> 3812"
    by simp
next
  assume "uint a \<le> 3812"
  then have "uint a * 2419200000000000 \<le> 3812 * 2419200000000000"
    by simp
  then show "inRange a"
    by (simp add: inRange_def cycleDuration_def maxDuration_def)
qed

lemma nominalEffective_days: "nominalEffective a = (693969 + 28 * uint a) * nsPerDay"
  by (simp add: nominalEffective_def epoch_days cycleDuration_days algebra_simps)

lemma validCycle_inRange:
  assumes "validCycle a"
  shows "inRange a"
proof (rule ccontr)
  assume "\<not> inRange a"
  then have big: "3813 \<le> uint a"
    by (simp add: inRange_iff)
  obtain y r where yr: "absYearDay (693969 + 28 * uint a) = (y, r)"
    by (cases "absYearDay (693969 + 28 * uint a)")
  have "y \<le> 2192"
    using assms by (simp add: validCycle_def TimeYear_def nominalEffective_days absDays_days yr)
  then have "y + 1 \<le> 2193"
    by simp
  then have "daysSinceEpoch (y + 1) \<le> daysSinceEpoch 2193"
    by (rule daysSinceEpoch_mono)
  moreover have "daysSinceEpoch 2193 = 800612"
    by (simp add: daysSinceEpoch_def Let_def)
  moreover have "693969 + 28 * uint a < daysSinceEpoch (y + 1)"
    using absYearDay_sound [OF yr] by (simp add: daysSinceEpoch_Suc)
  ultimately show False
    using big by linarith
qed

lemma validCycle_iff: "validCycle a \<longleftrightarrow> uint a \<le> 3808"
proof -
  obtain y r where yr: "absYearDay (693969 + 28 * uint a) = (y, r)"
    by (cases "absYearDay (693969 + 28 * uint a)")
  note s = absYearDay_sound [OF yr]
  have v: "validCycle a \<longleftrightarrow> y \<le> 2192"
    by (simp add: validCycle_def TimeYear_def nominalEffective_days absDays_days yr)
  have e: "daysSinceEpoch 2193 = 800612"
    by (simp add: daysSinceEpoch_def Let_def)
  show ?thesis
  proof
    assume "validCycle a"
    then have "y + 1 \<le> 2193"
      using v by simp
    then have "daysSinceEpoch (y + 1) \<le> daysSinceEpoch 2193"
      by (rule daysSinceEpoch_mono)
    moreover have "693969 + 28 * uint a < daysSinceEpoch (y + 1)"
      using s by (simp add: daysSinceEpoch_Suc)
    ultimately show "uint a \<le> 3808"
      using e by linarith
  next
    assume u: "uint a \<le> 3808"
    have "y \<le> 2192"
    proof (rule ccontr)
      assume "\<not> y \<le> 2192"
      then have "2193 \<le> y"
        by simp
      then have "daysSinceEpoch 2193 \<le> daysSinceEpoch y"
        by (rule daysSinceEpoch_mono)
      then show False
        using s(1,2) e u by linarith
    qed
    then show "validCycle a"
      using v by simp
  qed
qed

lemma roundtrip_inRange:
  assumes "inRange a"
  shows "FromDate (Effective a) = a"
proof -
  have u: "uint a \<le> 3812"
    using assms by (simp add: inRange_iff)
  have "FromDate ((693969 + 28 * uint a) * nsPerDay)
        = word_of_int ((693969 + 28 * uint a - 693969) div 28)"
    by (rule FromDate_days) (use u in simp_all)
  then show ?thesis
    by (simp add: Effective_days [OF u])
qed

lemma uint_Suc_inRange:
  assumes "inRange a"
  shows "uint (a + 1) = uint a + 1"
proof -
  have u: "uint a \<le> 3812"
    using assms by (simp add: inRange_iff)
  have "a + 1 = word_of_int (uint a + 1)"
    by simp
  then have "uint (a + 1) = uint (word_of_int (uint a + 1) :: AIRAC)"
    by (rule arg_cong)
  also have "\<dots> = uint a + 1"
    by (rule uint_small) (use u in simp_all)
  finally show ?thesis .
qed

lemma Ordinal_bounds_inRange:
  assumes "inRange a"
  shows "1 \<le> Ordinal a" "Ordinal a \<le> 14"
proof -
  have u: "uint a \<le> 3812"
    using assms by (simp add: inRange_iff)
  obtain y r where yr: "absYearDay (693969 + 28 * uint a) = (y, r)"
    by (cases "absYearDay (693969 + 28 * uint a)")
  have r: "0 \<le> r" "r \<le> 365"
    using absYearDay_sound(2,3) [OF yr] by (simp_all split: if_splits)
  have "0 \<le> r div 28" "r div 28 \<le> 13"
    using r div_bounds [of 28 r] by linarith+
  then show "1 \<le> Ordinal a" "Ordinal a \<le> 14"
    by (simp_all add: Ordinal_days [OF u] yr)
qed

lemma resolveYear_window:
  assumes "0 \<le> yy" "yy \<le> 99"
  shows "1964 \<le> resolveYear yy" "resolveYear yy \<le> 2063"
  using assms by (simp_all add: resolveYear_def)

lemma resolveYear_mod:
  assumes "1964 \<le> y" "y \<le> 2063"
  shows "resolveYear (y mod 100) = y"
proof (cases "y < 2000")
  case True
  have "y mod 100 = y - 1900"
    by (rule int_mod_pos_eq [where q = 19]) (use assms True in simp_all)
  then show ?thesis
    using assms by (simp add: resolveYear_def)
next
  case False
  have "y mod 100 = y - 2000"
    by (rule int_mod_pos_eq [where q = 20]) (use assms False in simp_all)
  then show ?thesis
    using assms by (simp add: resolveYear_def)
qed

lemma year_check_iff:
  assumes "1964 \<le> y" "y \<le> 2063" "0 \<le> oo" "oo \<le> 99"
  shows "Year (FromDate (Date (y - 1) 12 31 0 0 0 0) + word_of_int oo) = y
         \<longleftrightarrow> ordinalInYear y oo"
proof
  define k where "k = (daysSinceEpoch y - 693970) div 28"
  have "y \<le> 2064" using assms(2) by simp
  note l = lastAirac_uint [OF assms(1) this, folded k_def]
  define c :: AIRAC where "c = word_of_int (k + oo)"
  have sum: "FromDate (Date (y - 1) 12 31 0 0 0 0) + word_of_int oo = c"
    by (simp add: l(1) c_def)
  have uc: "uint c = k + oo"
    unfolding c_def by (rule uint_small) (use l(2,3) assms(3,4) in simp_all)
  then have rng: "uint c \<le> 3812"
    using l(3) assms(4) by simp
  assume "Year (FromDate (Date (y - 1) 12 31 0 0 0 0) + word_of_int oo) = y"
  then have yc: "Year c = y"
    by (simp add: sum)
  have "uint c = k + Ordinal c"
    unfolding k_def by (rule cycle_split [OF rng yc assms(1,2)])
  then have "Ordinal c = oo"
    using uc by simp
  then show "ordinalInYear y oo"
    unfolding ordinalInYear_def using rng yc by (auto simp: inRange_iff)
next
  assume "ordinalInYear y oo"
  then obtain c where c: "uint c \<le> 3812" "Year c = y" "Ordinal c = oo"
    by (auto simp: ordinalInYear_def inRange_iff)
  have "FromDate (Date (y - 1) 12 31 0 0 0 0) + word_of_int (Ordinal c) = c"
    by (rule lastAirac_plus_Ordinal [OF c(1,2) assms(1,2)])
  then show "Year (FromDate (Date (y - 1) 12 31 0 0 0 0) + word_of_int oo) = y"
    using c(2,3) by simp
qed

lemma FromString_cases:
  "FromString s =
     (if length (TrimSpace s) = 4 \<and> list_all isDigit (TrimSpace s)
      then if ordinalInYear (resolveYear (yearSuffix (TrimSpace s))) (ordinalPart (TrimSpace s))
           then Inr (FromDate (Date (resolveYear (yearSuffix (TrimSpace s)) - 1) 12 31 0 0 0 0)
                     + word_of_int (ordinalPart (TrimSpace s)))
           else Inl (IllegalAiracId s)
      else Inl (IllegalAiracId (TrimSpace s)))"
proof (cases "length (TrimSpace s) = 4 \<and> list_all isDigit (TrimSpace s)")
  case False
  then have "parseIdentifier s = Inl (IllegalAiracId (TrimSpace s))"
    by (simp only: parseIdentifier_cases if_False)
  then show ?thesis
    using False by (simp only: FromString_def sum.case if_False)
next
  case True
  then obtain a b c d where t: "TrimSpace s = [a, b, c, d]"
    using length_4 by blast
  have dig: "list_all isDigit [a, b, c, d]"
    using True t by simp
  note sp = split_yyoo(3-6) [OF dig, folded t]
  note w = resolveYear_window [OF sp(1,2)]
  show ?thesis
    using True year_check_iff [OF w sp(3,4)]
    by (simp add: FromString_def parseIdentifier_cases Let_def)
qed

lemma Year_lastAirac:
  assumes "1964 \<le> y" "y \<le> 2064"
  shows "Year (FromDate (Date (y - 1) 12 31 0 0 0 0)) = y - 1"
proof -
  define k where "k = (daysSinceEpoch y - 693970) div 28"
  note l = lastAirac_uint [OF assms, folded k_def]
  have uk: "uint (word_of_int k :: AIRAC) = k"
    by (rule uint_small) (use l(2,3) in simp_all)
  have kb: "28 * k \<le> daysSinceEpoch y - 693970" "daysSinceEpoch y - 693970 < 28 * k + 28"
    unfolding k_def by (rule div_bounds; simp)+
  have prev: "daysSinceEpoch y = daysSinceEpoch (y - 1) + (if isLeap (y - 1) then 366 else 365)"
    using daysSinceEpoch_Suc [of "y - 1"] by simp
  have lo: "daysSinceEpoch (y - 1) \<le> 693969 + 28 * k"
    using kb(2) prev by (simp split: if_splits)
  have hi: "693969 + 28 * k < daysSinceEpoch (y - 1 + 1)"
    using kb(1) by simp
  have "absYearDay (693969 + 28 * k) = (y - 1, 693969 + 28 * k - daysSinceEpoch (y - 1))"
    by (rule absYearDay_unique [OF lo hi])
  moreover have "Year (word_of_int k :: AIRAC) = fst (absYearDay (693969 + 28 * uint (word_of_int k :: AIRAC)))"
    by (rule Year_days) (use uk l(3) in simp)
  ultimately show ?thesis
    by (simp add: l(1) uk)
qed

lemma Format_cong:
  assumes "absDays t = absDays t'"
  shows "Format t = Format t'"
  using assms by (simp add: Format_def TimeYear_def TimeMonth_def TimeDay_def)

section \<open>The claims\<close>

text \<open>
  C1. For every valid cycle, a cycle whose effective date (the epoch plus the cycle number
  times 28 days) lies within the documented range, which ends with the year 2192,
  \<open>FromDate (Effective c)\<close> is \<open>c\<close>: converting a cycle to its effective date and back is
  the identity. The valid cycles are the cycles 0 to 3808 (\<open>validCycle_iff\<close>); every
  one of them is in range (\<open>validCycle_inRange\<close>), and the round trip holds for every
  cycle in range (\<open>roundtrip_inRange\<close>).
\<close>

theorem FromDate_Effective_roundtrip:
  assumes "validCycle c"
  shows "FromDate (Effective c) = c"
  using assms by (intro roundtrip_inRange validCycle_inRange)

theorem FromDate_Effective_roundtrip_witness:
  "validCycle 1566 \<and> FromDate (Effective 1566) = 1566"
proof -
  have v: "validCycle 1566"
    by code_simp
  show ?thesis
    using v FromDate_Effective_roundtrip [OF v] by simp
qed

text \<open>
  C2. For every cycle, \<open>Ordinal c\<close> is the 0-based day of the year of \<open>Effective c\<close>,
  divided by 28 and rounded down, plus 1; the day of the year is \<open>YearDay\<close> minus 1, which
  is the number of days from January 1 of \<open>Year c\<close> to the effective date. The claim puts
  the result in the range 1 to 13. That fails: the cycle 1565 takes effect on 2020-12-31,
  day 365 of a leap year, and has the ordinal 14. The range is 1 to 14.
\<close>

theorem Ordinal_13_counterexample:
  "Ordinal 1565 = 14 \<and> \<not> (1 \<le> Ordinal 1565 \<and> Ordinal 1565 \<le> 13)"
  by code_simp

theorem Ordinal_formula_and_range:
  "Ordinal c = (TimeYearDay (Effective c) - 1) div 28 + 1
   \<and> TimeYearDay (Effective c) - 1
       = absDays (Effective c) - absDays (Date (Year c) 1 1 0 0 0 0)
   \<and> 1 \<le> Ordinal c \<and> Ordinal c \<le> 14"
proof -
  obtain y r where yr: "absYearDay (absDays (Effective c)) = (y, r)"
    by (cases "absYearDay (absDays (Effective c))")
  note s = absYearDay_sound [OF yr]
  have r: "0 \<le> r" "r \<le> 365"
    using s(2,3) by (simp_all split: if_splits)
  have g: "go_div r 28 = r div 28"
    using r(1) by (rule go_div_nonneg) simp
  have q: "0 \<le> r div 28" "r div 28 \<le> 13"
    using r div_bounds [of 28 r] by linarith+
  have yd: "TimeYearDay (Effective c) - 1 = r"
    by (simp add: TimeYearDay_def yr)
  have y: "Year c = y"
    by (simp add: Year_def TimeYear_def yr)
  have jan1: "absDays (Date (Year c) 1 1 0 0 0 0) = daysSinceEpoch y"
    by (simp add: y Date_Jan1 absDays_days)
  have ord: "Ordinal c = r div 28 + 1"
    by (simp add: Ordinal_def yd g)
  show ?thesis
    using ord yd jan1 s(1) q by simp
qed

text \<open>
  C3. For every cycle whose year is within 1964 to 2063, \<open>FromString\<close> of its short string
  succeeds and returns the cycle. As stated, for every cycle, this fails: the offset of
  the cycle 8500 from the epoch is not a \<open>Duration\<close>, the product in \<open>Effective\<close> wraps
  around and lands in 1968, the cycle prints as 6802 and parses as the cycle 875. The round
  trip holds for every cycle in range whose year is within 1964 to 2063.
\<close>

theorem String_roundtrip_counterexample:
  "1964 \<le> Year 8500 \<and> Year 8500 \<le> 2063 \<and> String 8500 = ''6802''
   \<and> FromString (String 8500) = Inr 875 \<and> FromString (String 8500) \<noteq> Inr 8500"
  by code_simp

theorem FromString_String_roundtrip:
  assumes "inRange c" "1964 \<le> Year c" "Year c \<le> 2063"
  shows "FromString (String c) = Inr c"
proof -
  have u: "uint c \<le> 3812"
    using assms(1) by (simp add: inRange_iff)
  note ob = Ordinal_bounds_inRange [OF assms(1)]
  have y0: "0 \<le> Year c"
    using assms(2) by simp
  have o0: "0 \<le> Ordinal c" "Ordinal c < 100"
    using ob by simp_all
  obtain a b c' d where str:
    "fmt02d (go_mod (Year c) 100) @ fmt02d (Ordinal c) = [a, b, c', d]"
    "list_all isDigit [a, b, c', d]"
    "yearSuffix [a, b, c', d] = Year c mod 100"
    "ordinalPart [a, b, c', d] = Ordinal c"
    using String_digits [OF y0 o0] by blast
  have S: "String c = [a, b, c', d]"
    by (simp add: String_def str(1))
  have "TrimSpace (a # [b, c'] @ [d]) = a # [b, c'] @ [d]"
    by (rule TrimSpace_digits) (use str(2) in simp_all)
  then have T: "TrimSpace [a, b, c', d] = [a, b, c', d]"
    by simp
  have ry: "resolveYear (yearSuffix [a, b, c', d]) = Year c"
    by (simp add: str(3) resolveYear_mod [OF assms(2,3)])
  have oiy: "ordinalInYear (Year c) (Ordinal c)"
    unfolding ordinalInYear_def using assms(1) by blast
  have sum: "FromDate (Date (Year c - 1) 12 31 0 0 0 0) + word_of_int (Ordinal c) = c"
    by (rule lastAirac_plus_Ordinal [OF u refl assms(2,3)])
  have "FromString [a, b, c', d] = Inr c"
    using str(2) oiy by (simp add: FromString_cases T ry str(4) sum)
  then show ?thesis
    by (simp add: S)
qed

theorem FromString_String_roundtrip_witness:
  "inRange 1566 \<and> 1964 \<le> Year 1566 \<and> Year 1566 \<le> 2063 \<and> FromString (String 1566) = Inr 1566"
proof -
  have h: "inRange 1566" "1964 \<le> Year 1566" "Year 1566 \<le> 2063"
    by code_simp+
  show ?thesis
    using h FromString_String_roundtrip [OF h] by simp
qed

text \<open>
  C4. For every cycle, \<open>Effective c\<close> is strictly earlier than \<open>Effective (c + 1)\<close>, and the
  two are exactly 28 days apart. As stated, for every cycle, this fails at the cycle 3812,
  the last one in range: the product in \<open>Effective (3812 + 1)\<close> wraps around, and the
  result lies in 1608, before \<open>Effective 3812\<close>. It holds whenever both cycles are in
  range.
\<close>

theorem Effective_increasing_counterexample:
  "\<not> (Effective 3812 < Effective (3812 + 1))"
  by code_simp

theorem Effective_step:
  assumes "inRange c" "inRange (c + 1)"
  shows "Effective c < Effective (c + 1)
         \<and> Effective (c + 1) - Effective c = 28 * nsPerDay
         \<and> Sub (Effective (c + 1)) (Effective c) = cycleDuration"
proof -
  have u: "uint c \<le> 3812" and u1: "uint (c + 1) \<le> 3812"
    using assms by (simp_all add: inRange_iff)
  have s: "uint (c + 1) = uint c + 1"
    by (rule uint_Suc_inRange [OF assms(1)])
  have d: "Effective (c + 1) - Effective c = 28 * nsPerDay"
    unfolding Effective_days [OF u] Effective_days [OF u1] s by (simp add: algebra_simps)
  then have "Effective c < Effective (c + 1)"
    by (simp add: nsPerDay_def)
  moreover have "Sub (Effective (c + 1)) (Effective c) = cycleDuration"
    by (simp add: Sub_def d cycleDuration_days minDuration_def maxDuration_def nsPerDay_def)
  ultimately show ?thesis
    using d by simp
qed

theorem Effective_step_witness:
  "inRange 1565 \<and> inRange (1565 + 1) \<and> Effective 1565 < Effective (1565 + 1)
   \<and> Effective (1565 + 1) - Effective 1565 = 28 * nsPerDay
   \<and> Sub (Effective (1565 + 1)) (Effective 1565) = cycleDuration"
proof -
  have h: "inRange 1565" "inRange (1565 + 1)"
    by code_simp+
  show ?thesis
    using h Effective_step [OF h] by simp
qed

text \<open>
  C5. \<open>Effective c\<close> is the epoch, 1901-01-10T00:00:00 UTC, plus \<open>c\<close> times 28 days, a UTC
  midnight. As stated, for every representable cycle value, this fails: a \<open>Duration\<close>
  holds 3812 periods of 28 days and no more, so for the cycle 3813 the product wraps
  around, and the result is neither the epoch plus 3813 times 28 days nor a midnight. It
  holds for every cycle in range: the result is the midnight that \<open>time.Date\<close> gives for
  the day \<open>10 + 28 * c\<close> of January 1901.
\<close>

theorem Effective_wraps_counterexample:
  "Effective 3813 \<noteq> Add epoch (uint (3813 :: AIRAC) * cycleDuration)
   \<and> Effective 3813 mod nsPerDay \<noteq> 0"
  by code_simp

theorem Effective_epoch_plus:
  assumes "inRange c"
  shows "Effective c = Add epoch (uint c * cycleDuration)
         \<and> epoch = Date 1901 1 10 0 0 0 0
         \<and> cycleDuration = 28 * nsPerDay
         \<and> Effective c = Date 1901 1 (10 + 28 * uint c) 0 0 0 0
         \<and> Effective c mod nsPerDay = 0"
proof -
  have u: "uint c \<le> 3812"
    using assms by (simp add: inRange_iff)
  have e: "Effective c = (693969 + 28 * uint c) * nsPerDay"
    by (rule Effective_days [OF u])
  have 1: "Effective c = Add epoch (uint c * cycleDuration)"
    by (simp add: e Add_def epoch_days cycleDuration_days algebra_simps)
  have 2: "Effective c = Date 1901 1 (10 + 28 * uint c) 0 0 0 0"
    by (simp add: e Date_def daysSinceEpoch_def isLeap_def daysBefore_def nsPerDay_def Let_def)
  have 3: "Effective c mod nsPerDay = 0"
    by (simp add: e)
  show ?thesis
    using 1 2 3 by (simp add: epoch_def cycleDuration_days)
qed

theorem Effective_epoch_plus_witness:
  "inRange 3812 \<and> Effective 3812 = Add epoch (uint (3812 :: AIRAC) * cycleDuration)
   \<and> Effective 3812 = Date 1901 1 (10 + 28 * uint (3812 :: AIRAC)) 0 0 0 0
   \<and> Effective 3812 mod nsPerDay = 0"
proof -
  have h: "inRange 3812"
    by code_simp
  show ?thesis
    using h Effective_epoch_plus [OF h] by blast
qed

text \<open>
  C6. \<open>FromString\<close> fails with the one error of the package, illegal AIRAC id, on every
  input that, after trimming white space, is not of length 4, or has a leading sign, or
  is not entirely decimal digits, or spells an ordinal that does not belong to the
  resolved year; on every other input it succeeds, and the cycle it returns is in range
  and has the resolved year and the ordinal of the identifier.
\<close>

theorem FromString_fails_exactly:
  "(let t = TrimSpace s; y = resolveYear (yearSuffix t); oo = ordinalPart t
    in if length t \<noteq> 4
          \<or> (t \<noteq> [] \<and> (hd t = CHR ''+'' \<or> hd t = CHR ''-''))
          \<or> \<not> list_all isDigit t
          \<or> \<not> ordinalInYear y oo
       then \<exists>x. FromString s = Inl (IllegalAiracId x)
       else \<exists>c. FromString s = Inr c \<and> inRange c \<and> Year c = y \<and> Ordinal c = oo)"
proof -
  define t where "t = TrimSpace s"
  define y where "y = resolveYear (yearSuffix t)"
  define oo where "oo = ordinalPart t"
  define bad where "bad \<longleftrightarrow> length t \<noteq> 4
          \<or> (t \<noteq> [] \<and> (hd t = CHR ''+'' \<or> hd t = CHR ''-''))
          \<or> \<not> list_all isDigit t
          \<or> \<not> ordinalInYear y oo"
  have "if bad then \<exists>x. FromString s = Inl (IllegalAiracId x)
        else \<exists>c. FromString s = Inr c \<and> inRange c \<and> Year c = y \<and> Ordinal c = oo"
  proof (cases "length t = 4 \<and> list_all isDigit t")
    case False
    then have "bad"
      by (auto simp: bad_def)
    moreover have "FromString s = Inl (IllegalAiracId t)"
      using False unfolding t_def by (subst FromString_cases) (simp only: if_False)
    ultimately show ?thesis
      by simp
  next
    case wf: True
    then obtain a b c d where abcd: "t = [a, b, c, d]"
      using length_4 by blast
    have dig: "list_all isDigit [a, b, c, d]"
      using wf abcd by simp
    then have nosign: "\<not> (t \<noteq> [] \<and> (hd t = CHR ''+'' \<or> hd t = CHR ''-''))"
      by (auto simp: abcd isDigit_def)
    note sp = split_yyoo(3-6) [OF dig, folded abcd]
    note w = resolveYear_window [OF sp(1,2), folded y_def]
    show ?thesis
    proof (cases "ordinalInYear y oo")
      case False
      then have "bad"
        by (simp add: bad_def)
      moreover have "FromString s = Inl (IllegalAiracId s)"
        using wf False by (simp add: FromString_cases t_def [symmetric] y_def oo_def)
      ultimately show ?thesis
        by simp
    next
      case True
      then have "\<not> bad"
        using wf nosign by (simp add: bad_def)
      obtain c' where c': "inRange c'" "Year c' = y" "Ordinal c' = oo"
        using True by (auto simp: ordinalInYear_def)
      have u: "uint c' \<le> 3812"
        using c'(1) by (simp add: inRange_iff)
      have "FromDate (Date (y - 1) 12 31 0 0 0 0) + word_of_int (Ordinal c') = c'"
        by (rule lastAirac_plus_Ordinal [OF u c'(2) w])
      then have "FromString s = Inr c'"
        using wf True by (simp add: FromString_cases t_def [symmetric] y_def [symmetric]
            oo_def [symmetric] c'(3))
      then show ?thesis
        using \<open>\<not> bad\<close> c' by simp
    qed
  qed
  then show ?thesis
    by (simp only: Let_def bad_def y_def oo_def t_def)
qed

theorem FromString_fails_exactly_witness:
  "(\<exists>x. FromString ''+101'' = Inl (IllegalAiracId x))
   \<and> (\<exists>c. FromString '' 2101 '' = Inr c \<and> inRange c \<and> Year c = 2021 \<and> Ordinal c = 1)"
proof -
  have t1: "TrimSpace ''+101'' = ''+101''"
    by code_simp
  have 1: "\<exists>x. FromString ''+101'' = Inl (IllegalAiracId x)"
    using FromString_fails_exactly [of "''+101''"] unfolding Let_def t1 by simp
  have t2: "TrimSpace '' 2101 '' = ''2101''"
    by code_simp
  have d: "list_all isDigit ''2101''"
    by code_simp
  have ys: "resolveYear (yearSuffix ''2101'') = 2021" "ordinalPart ''2101'' = 1"
    by code_simp+
  have "inRange 1566 \<and> Year 1566 = 2021 \<and> Ordinal 1566 = 1"
    by code_simp
  then have o: "ordinalInYear 2021 1"
    unfolding ordinalInYear_def by blast
  have 2: "\<exists>c. FromString '' 2101 '' = Inr c \<and> inRange c \<and> Year c = 2021 \<and> Ordinal c = 1"
    using FromString_fails_exactly [of "'' 2101 ''"] d o unfolding Let_def t2 ys by simp
  show ?thesis
    using 1 2 by (rule conjI)
qed

text \<open>
  C7. The parser resolves the two-digit year suffix \<open>yy\<close> to \<open>yy + 1900\<close>, plus 100 when
  that is at most 1963. So \<open>FromString "6401"\<close> is a cycle of year 1964 with ordinal 1,
  \<open>FromString "0001"\<close> a cycle of year 2000 with ordinal 1, and \<open>FromString "9913"\<close> a
  cycle of year 1999.
\<close>

theorem year_resolution_rule:
  assumes "isDigit a" "isDigit b" "isDigit c" "isDigit d"
  shows "parseIdentifier [a, b, c, d]
           = Inr (let year = yearSuffix [a, b, c, d] + 1900
                  in if year \<le> 1963 then year + 100 else year,
                  ordinalPart [a, b, c, d])
         \<and> FromString ''6401'' = Inr 822 \<and> Year 822 = 1964 \<and> Ordinal 822 = 1
         \<and> FromString ''0001'' = Inr 1292 \<and> Year 1292 = 2000 \<and> Ordinal 1292 = 1
         \<and> FromString ''9913'' = Inr 1291 \<and> Year 1291 = 1999"
proof -
  have "TrimSpace (a # [b, c] @ [d]) = a # [b, c] @ [d]"
    by (rule TrimSpace_digits [OF assms(1,4)])
  then have T: "TrimSpace [a, b, c, d] = [a, b, c, d]"
    by simp
  have 1: "parseIdentifier [a, b, c, d]
           = Inr (let year = yearSuffix [a, b, c, d] + 1900
                  in if year \<le> 1963 then year + 100 else year,
                  ordinalPart [a, b, c, d])"
    using assms by (simp add: parseIdentifier_cases T resolveYear_def Let_def)
  have 2: "FromString ''6401'' = Inr 822 \<and> Year 822 = 1964 \<and> Ordinal 822 = 1"
    by code_simp
  have 3: "FromString ''0001'' = Inr 1292 \<and> Year 1292 = 2000 \<and> Ordinal 1292 = 1"
    by code_simp
  have 4: "FromString ''9913'' = Inr 1291 \<and> Year 1291 = 1999"
    by code_simp
  show ?thesis
    using 1 2 3 4 by blast
qed

theorem year_resolution_rule_witness:
  "isDigit (CHR ''2'') \<and> isDigit (CHR ''1'') \<and> isDigit (CHR ''0'')
   \<and> parseIdentifier ''2101'' = Inr (2021, 1)
   \<and> FromString ''6401'' = Inr 822 \<and> FromString ''0001'' = Inr 1292
   \<and> FromString ''9913'' = Inr 1291"
proof -
  have h: "isDigit (CHR ''2'')" "isDigit (CHR ''1'')" "isDigit (CHR ''0'')"
    by code_simp+
  have v: "yearSuffix ''2101'' = 21" "ordinalPart ''2101'' = 1"
    by code_simp+
  show ?thesis
    using h year_resolution_rule [OF h(1) h(2) h(3) h(2)] by (simp add: v)
qed

text \<open>
  C8. For consecutive cycles \<open>c\<close> and \<open>c + 1\<close>, the expiry date that \<open>LongString c\<close> shows is
  the calendar day before the effective date that \<open>LongString (c + 1)\<close> shows: the source
  formats \<open>Effective (c + 1)\<close> less one nanosecond, which is the day that
  \<open>Effective (c + 1)\<close> less one day is on. As stated, for every pair of consecutive cycles,
  this fails: the cycle 3814 is not in range, its \<open>Effective\<close> has wrapped around and is
  not a midnight, so one nanosecond earlier is the same calendar day, and the expiry date
  that \<open>LongString 3813\<close> shows is the effective date that \<open>LongString 3814\<close> shows. It
  holds whenever \<open>c + 1\<close> is in range.
\<close>

theorem LongString_expiry_counterexample:
  "absDays (Add (Effective (3813 + 1)) (- 1)) \<noteq> absDays (Effective (3813 + 1)) - 1
   \<and> LongString 3813 = ''0811 (effective: 1608-10-12; expires: 1608-11-09)''
   \<and> LongString (3813 + 1) = ''0812 (effective: 1608-11-09; expires: 1608-12-07)''"
  by code_simp

theorem LongString_expiry:
  assumes "inRange (c + 1)"
  shows "LongString c = String c @ '' (effective: '' @ Format (Effective c)
           @ ''; expires: '' @ Format (Add (Effective (c + 1)) (- nsPerDay)) @ '')''
         \<and> LongString (c + 1) = String (c + 1) @ '' (effective: '' @ Format (Effective (c + 1))
           @ ''; expires: '' @ Format (Add (Effective (c + 1 + 1)) (- 1)) @ '')''
         \<and> absDays (Add (Effective (c + 1)) (- 1)) = absDays (Effective (c + 1)) - 1
         \<and> absDays (Add (Effective (c + 1)) (- nsPerDay)) = absDays (Effective (c + 1)) - 1"
proof -
  have u: "uint (c + 1) \<le> 3812"
    using assms by (simp add: inRange_iff)
  define n where "n = 693969 + 28 * uint (c + 1)"
  have e: "Effective (c + 1) = n * nsPerDay"
    unfolding n_def by (rule Effective_days [OF u])
  have ns: "absDays (Add (Effective (c + 1)) (- 1)) = n - 1"
    unfolding absDays_def e Add_def
    by (rule int_div_pos_eq [where r = "nsPerDay - 1"])
      (simp_all add: nsPerDay_def algebra_simps)
  have "Add (Effective (c + 1)) (- nsPerDay) = (n - 1) * nsPerDay"
    unfolding e Add_def by (simp add: algebra_simps)
  then have day: "absDays (Add (Effective (c + 1)) (- nsPerDay)) = n - 1"
    by (simp add: absDays_days)
  have eff: "absDays (Effective (c + 1)) = n"
    by (simp add: e absDays_days)
  have "Format (Add (Effective (c + 1)) (- 1)) = Format (Add (Effective (c + 1)) (- nsPerDay))"
    by (rule Format_cong) (simp add: ns day)
  then have 1: "LongString c = String c @ '' (effective: '' @ Format (Effective c)
           @ ''; expires: '' @ Format (Add (Effective (c + 1)) (- nsPerDay)) @ '')''"
    by (simp add: LongString_def String_def Let_def)
  have 2: "LongString (c + 1) = String (c + 1) @ '' (effective: ''
           @ Format (Effective (c + 1))
           @ ''; expires: '' @ Format (Add (Effective (c + 1 + 1)) (- 1)) @ '')''"
    by (simp add: LongString_def String_def Let_def)
  show ?thesis
    using 1 2 ns day eff by simp
qed

theorem LongString_expiry_witness:
  "inRange (1565 + 1)
   \<and> LongString 1565 = String 1565 @ '' (effective: '' @ Format (Effective 1565)
        @ ''; expires: '' @ Format (Add (Effective (1565 + 1)) (- nsPerDay)) @ '')''
   \<and> absDays (Add (Effective (1565 + 1)) (- 1)) = absDays (Effective (1565 + 1)) - 1"
proof -
  have h: "inRange (1565 + 1)"
    by code_simp
  show ?thesis
    using h LongString_expiry [OF h] by blast
qed

text \<open>
  C9. The cycle that \<open>FromDate\<close> gives for the date 2021-01-28 has the short string 2101:
  its year is 2021 and its ordinal is 1.
\<close>

theorem cycle_of_2021_01_28:
  "String (FromDate (Date 2021 1 28 0 0 0 0)) = ''2101''
   \<and> Year (FromDate (Date 2021 1 28 0 0 0 0)) = 2021
   \<and> Ordinal (FromDate (Date 2021 1 28 0 0 0 0)) = 1"
  by code_simp

text \<open>
  C10. For every identifier of four digits that ends in 00, \<open>FromString\<close> fails: adding the
  ordinal 0 to the last cycle of the previous year gives that cycle, whose year is the
  previous year, and the year check rejects it.
\<close>

theorem FromString_ordinal_zero_fails:
  assumes "isDigit a" "isDigit b"
  shows "FromString [a, b, CHR ''0'', CHR ''0''] = Inl (IllegalAiracId [a, b, CHR ''0'', CHR ''0''])
         \<and> Year (FromDate (Date (resolveYear (yearSuffix [a, b, CHR ''0'', CHR ''0'']) - 1)
                    12 31 0 0 0 0) + word_of_int 0)
           = resolveYear (yearSuffix [a, b, CHR ''0'', CHR ''0'']) - 1"
proof -
  define t where "t = [a, b, CHR ''0'', CHR ''0'']"
  define y where "y = resolveYear (yearSuffix t)"
  have z: "isDigit (CHR ''0'')"
    by (simp add: isDigit_def)
  have dig: "list_all isDigit [a, b, CHR ''0'', CHR ''0'']"
    using assms z by simp
  have "TrimSpace (a # [b, CHR ''0''] @ [CHR ''0'']) = a # [b, CHR ''0''] @ [CHR ''0'']"
    by (rule TrimSpace_digits [OF assms(1) z])
  then have T: "TrimSpace t = t"
    by (simp add: t_def)
  note sp = split_yyoo(3,4) [OF dig, folded t_def]
  note w = resolveYear_window [OF sp, folded y_def]
  have oo: "ordinalPart t = 0"
    by (simp add: t_def ordinalPart_def digitsVal_def)
  have "\<not> ordinalInYear y 0"
    using Ordinal_bounds_inRange(1) by (fastforce simp: ordinalInYear_def)
  then have 1: "FromString t = Inl (IllegalAiracId t)"
    using dig by (simp add: FromString_cases T oo y_def [symmetric])
  have "y \<le> 2064"
    using w(2) by simp
  then have 2: "Year (FromDate (Date (y - 1) 12 31 0 0 0 0) + word_of_int 0) = y - 1"
    using Year_lastAirac [OF w(1)] by simp
  show ?thesis
    using 1 2 by (simp add: t_def y_def)
qed

theorem FromString_ordinal_zero_fails_witness:
  "isDigit (CHR ''2'') \<and> isDigit (CHR ''1'')
   \<and> FromString ''2100'' = Inl (IllegalAiracId ''2100'')
   \<and> Year (FromDate (Date (2021 - 1) 12 31 0 0 0 0) + word_of_int 0) = 2021 - 1"
proof -
  have h: "isDigit (CHR ''2'')" "isDigit (CHR ''1'')"
    by code_simp+
  have v: "resolveYear (yearSuffix ''2100'') = 2021"
    by code_simp
  show ?thesis
    using h FromString_ordinal_zero_fails [OF h] by (simp add: v)
qed


end
